theory Spec2Isabelle
  imports Main "HOL-Library.Sublist"
begin

section \<open>JavaScript string primitives\<close>

text \<open>
  The client script works on JavaScript strings. They are modelled as \<^typ>\<open>string\<close>, one
  \<^typ>\<open>char\<close> per code unit, and the model is exact for text whose code units are below
  256: \<open>\w\<close> and \<open>\d\<close> are ASCII classes in JavaScript too, \<open>\s\<close> and \<open>trim\<close> take the
  no-break space U+00A0 besides the ASCII white space, and \<open>toLowerCase\<close> folds the
  letters U+00C0 to U+00DE besides \<open>A\<close> to \<open>Z\<close>. Code units from 256 on have no
  counterpart in the model.
\<close>

definition isSpace :: "char \<Rightarrow> bool" where
  \<comment> \<open>\<open>\s\<close>, and what \<open>trim\<close> strips: TAB, LF, VT, FF, CR, SPACE and U+00A0\<close>
  "isSpace c = (let n = (of_char c :: nat) in (9 \<le> n \<and> n \<le> 13) \<or> n = 32 \<or> n = 160)"

definition isDigit :: "char \<Rightarrow> bool" where
  \<comment> \<open>\<open>\d\<close>\<close>
  "isDigit c = (let n = (of_char c :: nat) in 48 \<le> n \<and> n \<le> 57)"

definition isUpper :: "char \<Rightarrow> bool" where
  \<comment> \<open>\<open>A\<close> to \<open>Z\<close>\<close>
  "isUpper c = (let n = (of_char c :: nat) in 65 \<le> n \<and> n \<le> 90)"

definition isUpperLatin1 :: "char \<Rightarrow> bool" where
  \<comment> \<open>the upper-case letters U+00C0 to U+00DE; U+00D7 is the multiplication sign\<close>
  "isUpperLatin1 c = (let n = (of_char c :: nat) in 192 \<le> n \<and> n \<le> 222 \<and> n \<noteq> 215)"

definition isWordChar :: "char \<Rightarrow> bool" where
  \<comment> \<open>\<open>\w\<close> is \<open>[A-Za-z0-9_]\<close>\<close>
  "isWordChar c =
     (let n = (of_char c :: nat)
      in (48 \<le> n \<and> n \<le> 57) \<or> (65 \<le> n \<and> n \<le> 90) \<or> n = 95 \<or> (97 \<le> n \<and> n \<le> 122))"

definition toLowerChar :: "char \<Rightarrow> char" where
  \<comment> \<open>in both ranges the lower-case letter lies 32 above the upper-case one\<close>
  "toLowerChar c =
     (if isUpper c \<or> isUpperLatin1 c then char_of (of_char c + (32 :: nat)) else c)"

definition toLowerCase :: "string \<Rightarrow> string" where
  "toLowerCase s = map toLowerChar s"

definition trim :: "string \<Rightarrow> string" where
  "trim s = rev (dropWhile isSpace (rev (dropWhile isSpace s)))"

fun js_includes :: "string \<Rightarrow> string \<Rightarrow> bool" where
  \<comment> \<open>\<open>hay.includes(needle)\<close>: \<open>needle\<close> occurs in \<open>hay\<close> as a contiguous run\<close>
  "js_includes [] needle = (needle = [])"
| "js_includes (c # cs) needle = (prefix needle (c # cs) \<or> js_includes cs needle)"

definition replacePunct :: "string \<Rightarrow> string" where
  \<comment> \<open>\<open>.replace(/[^\w\s]/g, ' ')\<close>\<close>
  "replacePunct s = map (\<lambda>c. if isWordChar c \<or> isSpace c then c else CHR '' '') s"

primrec splitWs :: "bool \<Rightarrow> string \<Rightarrow> string \<Rightarrow> string list" where
  \<comment> \<open>\<open>.split(/\s+/)\<close>, scanning left to right: \<open>cur\<close> is the piece being read, reversed;
      \<open>inSep\<close> says that the scan is inside a run of white space that has already closed a
      piece. A separator at either end of the string leaves an empty piece there, and the
      empty string gives one empty piece.\<close>
  "splitWs inSep cur [] = [rev cur]"
| "splitWs inSep cur (c # cs) =
     (if isSpace c then
        (if inSep then splitWs True cur cs else rev cur # splitWs True [] cs)
      else splitWs False (c # cur) cs)"

definition split_ws :: "string \<Rightarrow> string list" where
  "split_ws s = splitWs False [] s"


section \<open>Page attribution: \<open>findPageForText\<close>\<close>

definition cleanSearch :: "string \<Rightarrow> string" where
  \<comment> \<open>\<open>const cleanSearch = searchText.toLowerCase().trim()\<close>\<close>
  "cleanSearch searchText = trim (toLowerCase searchText)"

definition meaningfulWords :: "string \<Rightarrow> string list" where
  \<comment> \<open>\<open>cleanSearch.replace(/[^\w\s]/g, ' ').split(/\s+/).filter(word => word.length > 3)\<close>\<close>
  "meaningfulWords cs = filter (\<lambda>word. length word > 3) (split_ws (replacePunct cs))"

definition pageScore :: "string \<Rightarrow> string list \<Rightarrow> string \<Rightarrow> nat" where
  \<comment> \<open>The body of the page loop for a page that has text: \<open>score\<close> starts at 0, gains 100
      when the lowered page text includes \<open>cleanSearch\<close>, and \<open>forEach\<close> adds 10 for every
      element of \<open>meaningfulWords\<close> that the lowered page text includes.\<close>
  "pageScore cs ws pageText =
     (let pageTextLower = toLowerCase pageText;
          score = (if js_includes pageTextLower cs then 100 else 0)
      in foldl (\<lambda>score word. if js_includes pageTextLower word then score + 10 else score)
           score ws)"

record best_match =
  page :: nat
  score :: nat

definition visitPage :: "(nat \<rightharpoonup> string) \<Rightarrow> string \<Rightarrow> string list \<Rightarrow> nat \<Rightarrow> best_match \<Rightarrow> best_match" where
  \<comment> \<open>One iteration of the loop. A page with no entry in the page map, or with the empty
      text, is skipped by \<open>continue\<close>; otherwise its score replaces \<open>bestMatch\<close> only when
      it is strictly greater.\<close>
  "visitPage ptc cs ws pageNum bestMatch =
     (case ptc pageNum of
        None \<Rightarrow> bestMatch
      | Some pageText \<Rightarrow>
          if pageText = [] then bestMatch
          else (let sc = pageScore cs ws pageText
                in if sc > score bestMatch then \<lparr>page = pageNum, score = sc\<rparr> else bestMatch))"

function findLoop :: "(nat \<rightharpoonup> string) \<Rightarrow> string \<Rightarrow> string list \<Rightarrow> nat \<Rightarrow> nat \<Rightarrow> best_match \<Rightarrow> best_match" where
  \<comment> \<open>\<open>for (let pageNum = 1; pageNum <= totalPages; pageNum++)\<close>, from \<open>pageNum\<close> on\<close>
  "findLoop ptc cs ws tp pageNum bestMatch =
     (if pageNum \<le> tp
      then findLoop ptc cs ws tp (Suc pageNum) (visitPage ptc cs ws pageNum bestMatch)
      else bestMatch)"
  by pat_completeness auto
termination
  by (relation "measure (\<lambda>(ptc, cs, ws, tp, pageNum, bestMatch). Suc tp - pageNum)") auto

declare findLoop.simps [simp del]


section \<open>Application state\<close>

text \<open>
  The script keeps its state in global variables and in the page. The record holds the
  globals that the chat code reads or writes, under their own names, and the parts of the
  page it touches: the value of \<open>#message-input\<close> and the \<open>disabled\<close> flag of
  \<open>#send-button\<close> (\<open>None\<close> when \<open>getElementById\<close> finds no such element), the typing
  indicator, whether the page has the \<open>#messages-container\<close>, the messages appended to it
  by \<open>addMessage\<close>, and the \<open>POST /chat\<close> requests that
  have been issued and not yet settled, each with the message it carries. Page numbers and
  \<open>totalPages\<close>, which is the page count of the loaded document, are natural numbers.
\<close>

datatype sender = User | AI

datatype block =
    Paragraph string
    \<comment> \<open>\<open><p>sentence</p>\<close>: no page reference\<close>
  | PageRefRow bool string nat
    \<comment> \<open>the flex row: whether the text is prefixed with a bullet, the text, and the page
        number of its one \<open>page-ref\<close> span\<close>

datatype content = Text string | Markup "block list"

record app =
  documentProcessed :: bool
  currentPage :: nat
  totalPages :: nat
  pageTextContent :: "(nat \<rightharpoonup> string) option"
  isProcessingMessage :: bool
  messageInput :: "string option"
  sendButton :: "bool option"
  typingIndicator :: bool
  messagesContainer :: bool
  messages :: "(sender \<times> content) list"
  pending :: "string list"

definition findPageForText :: "app \<Rightarrow> string option \<Rightarrow> nat" where
  \<comment> \<open>\<open>searchText\<close> is \<open>None\<close> for \<open>null\<close> or \<open>undefined\<close>; these and the empty string
      are falsy. \<open>pageTextContent\<close> is \<open>None\<close> when the variable holds no object.\<close>
  "findPageForText g searchText =
     (case searchText of
        None \<Rightarrow> 1
      | Some st \<Rightarrow>
          if st = [] then 1
          else (case pageTextContent g of
                  None \<Rightarrow> 1
                | Some ptc \<Rightarrow>
                    (let cs = cleanSearch st;
                         ws = meaningfulWords cs
                     in if ws = [] then 1
                        else (let bestMatch = findLoop ptc cs ws (totalPages g) 1 \<lparr>page = 1, score = 0\<rparr>
                              in if score bestMatch > 0 then page bestMatch else 1))))"


section \<open>Rendering an answer: \<open>formatAIResponse\<close>\<close>

primrec splitSentences :: "bool \<Rightarrow> string \<Rightarrow> string \<Rightarrow> string list" where
  \<comment> \<open>\<open>.split(/(?<=[.!?])\s+/)\<close>: as \<open>splitWs\<close>, but a run of white space separates only
      when the character before it is one of \<open>.\<close>, \<open>!\<close>, \<open>?\<close>\<close>
  "splitSentences inSep cur [] = [rev cur]"
| "splitSentences inSep cur (c # cs) =
     (if isSpace c then
        (if inSep then splitSentences True cur cs
         else if cur \<noteq> [] \<and> hd cur \<in> {CHR ''.'', CHR ''!'', CHR ''?''}
           then rev cur # splitSentences True [] cs
         else splitSentences False (c # cur) cs)
      else splitSentences False (c # cur) cs)"

definition isMarker :: "char \<Rightarrow> bool" where
  \<comment> \<open>The character class that opens both list-item patterns. In the script it holds
      the dash and the code units U+00E2, U+20AC and U+02D8; the last two are beyond the
      code units of the model.\<close>
  "isMarker c = (c = CHR ''-'' \<or> c = CHR 0xE2)"

definition isListItem :: "string \<Rightarrow> bool" where
  \<comment> \<open>\<open>sentence.match(/^[...\-]|^\d+\./)\<close>\<close>
  "isListItem s =
     (case s of
        [] \<Rightarrow> False
      | c # _ \<Rightarrow> isMarker c \<or>
          (isDigit c \<and> (case dropWhile isDigit s of [] \<Rightarrow> False | d # _ \<Rightarrow> d = CHR ''.'')))"

definition stripMarker :: "string \<Rightarrow> string" where
  \<comment> \<open>\<open>sentence.replace(/^[...\-]\s*|^\d+\.\s*/, '')\<close>\<close>
  "stripMarker s =
     (case s of
        [] \<Rightarrow> []
      | c # cs \<Rightarrow>
          if isMarker c then dropWhile isSpace cs
          else if isDigit c then
            (case dropWhile isDigit s of
               [] \<Rightarrow> s
             | d # rest \<Rightarrow> if d = CHR ''.'' then dropWhile isSpace rest else s)
          else s)"

definition formatSentence :: "app \<Rightarrow> string \<Rightarrow> block list" where
  \<comment> \<open>The body of \<open>sentences.forEach\<close>: what one sentence appends to \<open>html\<close>\<close>
  "formatSentence g sentence0 =
     (let sentence = trim sentence0
      in if sentence = [] then []
         else if isListItem sentence then
           (let content = stripMarker sentence;
                pageNum = findPageForText g (Some content)
            in [PageRefRow True content pageNum])
         else if js_includes (toLowerCase sentence) ''don't have information'' then
           [Paragraph sentence]
         else
           (let pageNum = findPageForText g (Some sentence)
            in [PageRefRow False sentence pageNum]))"

definition formatAIResponse :: "app \<Rightarrow> string \<Rightarrow> block list" where
  \<comment> \<open>The returned markup is the concatenation of one element per sentence; the model
      returns the elements.\<close>
  "formatAIResponse g answer0 =
     (let answer = trim (filter (\<lambda>c. c \<noteq> CHR ''*'') answer0);
          sentences = filter (\<lambda>s. length (trim s) > 0) (splitSentences False [] answer)
      in concat (map (formatSentence g) sentences))"


section \<open>Sending a message\<close>

definition addMessage :: "sender \<Rightarrow> content \<Rightarrow> app \<Rightarrow> app" where
  \<comment> \<open>\<open>if (!messagesContainer) return;\<close> then the new message is appended\<close>
  "addMessage who c s =
     (if \<not> messagesContainer s then s else s\<lparr>messages := messages s @ [(who, c)]\<rparr>)"

definition showTypingIndicator :: "app \<Rightarrow> app" where
  "showTypingIndicator s = s\<lparr>typingIndicator := True\<rparr>"

definition hideTypingIndicator :: "app \<Rightarrow> app" where
  "hideTypingIndicator s = s\<lparr>typingIndicator := False\<rparr>"

definition sendMessage :: "app \<Rightarrow> app" where
  \<comment> \<open>\<open>sendMessage\<close> up to its first \<open>await\<close>: the guards, the bookkeeping and the call of
      \<open>fetch('/chat', ...)\<close>, which adds the request to \<open>pending\<close>\<close>
  "sendMessage s =
     (case messageInput s of
        None \<Rightarrow> s
      | Some v \<Rightarrow>
          (case sendButton s of
             None \<Rightarrow> s
           | Some d \<Rightarrow>
               (let message = trim v
                in if message = [] \<or> \<not> documentProcessed s \<or> isProcessingMessage s then s
                   else (let s1 = s\<lparr>isProcessingMessage := True, sendButton := Some True\<rparr>;
                             s2 = addMessage User (Text message) s1;
                             s3 = showTypingIndicator (s2\<lparr>messageInput := Some []\<rparr>)
                         in s3\<lparr>pending := pending s3 @ [message]\<rparr>))))"

datatype reply =
    Threw
    \<comment> \<open>\<open>fetch\<close> rejected, or the body was not JSON\<close>
  | Result bool "string option" "string option"
    \<comment> \<open>the parsed body: whether \<open>success\<close> is truthy, \<open>answer\<close> and \<open>message\<close> when they
        are strings\<close>

definition connectError :: "app \<Rightarrow> app" where
  \<comment> \<open>the \<open>catch\<close> block\<close>
  "connectError s =
     addMessage AI (Text ''Error: Unable to connect to server. Please try again.'')
       (hideTypingIndicator s)"

definition sendMessage_settled :: "nat \<Rightarrow> reply \<Rightarrow> app \<Rightarrow> app" where
  \<comment> \<open>The rest of \<open>sendMessage\<close>, run when request number \<open>i\<close> of \<open>pending\<close> settles with
      \<open>r\<close>: the \<open>try\<close> body after the \<open>await\<close>, the \<open>catch\<close> block (also entered when
      \<open>formatAIResponse\<close> is handed an \<open>answer\<close> that is no string), then \<open>finally\<close>.\<close>
  "sendMessage_settled i r s =
     (let s1 = (case r of
                  Threw \<Rightarrow> connectError s
                | Result success answer msg \<Rightarrow>
                    (let s' = hideTypingIndicator s
                     in if success then
                          (case answer of
                             None \<Rightarrow> connectError s'
                           | Some a \<Rightarrow> addMessage AI (Markup (formatAIResponse s' a)) s')
                        else
                          addMessage AI
                            (Text (''Error: '' @
                               (case msg of
                                  None \<Rightarrow> ''Unable to process your request''
                                | Some m \<Rightarrow> if m = [] then ''Unable to process your request'' else m)))
                            s'))
      in s1\<lparr>isProcessingMessage := False,
            sendButton := map_option (\<lambda>_. False) (sendButton s1),
            pending := take i (pending s1) @ drop (Suc i) (pending s1)\<rparr>)"

definition keypressEnter :: "app \<Rightarrow> app" where
  \<comment> \<open>the \<open>keypress\<close> listener of the input: \<open>if (e.key === 'Enter' && !isProcessingMessage)\<close>\<close>
  "keypressEnter s = (if \<not> isProcessingMessage s then sendMessage s else s)"

definition askSuggestedQuestion :: "string \<Rightarrow> app \<Rightarrow> app" where
  "askSuggestedQuestion question s =
     (if isProcessingMessage s then s
      else (case messageInput s of
              None \<Rightarrow> s
            | Some v \<Rightarrow> sendMessage (s\<lparr>messageInput := Some question\<rparr>)))"

definition initialApp :: "string option \<Rightarrow> bool option \<Rightarrow> app" where
  \<comment> \<open>the globals as the script declares them, in a page that has the messages container
      and whose input and button are as given\<close>
  "initialApp mi sb =
     \<lparr>documentProcessed = False, currentPage = 1, totalPages = 1,
      pageTextContent = Some Map.empty, isProcessingMessage = False,
      messageInput = mi, sendButton = sb, typingIndicator = False,
      messagesContainer = True, messages = [], pending = []\<rparr>"

inductive reachable :: "app \<Rightarrow> bool" where
  \<comment> \<open>The states the page can be in: handlers run one at a time. Every handler other than
      the three chat entry points leaves \<open>isProcessingMessage\<close> alone and issues no
      \<open>/chat\<close> request; what else it changes is unconstrained.\<close>
  start: "reachable (initialApp mi sb)"
| click_send: "reachable s \<Longrightarrow> reachable (sendMessage s)"
| press_enter: "reachable s \<Longrightarrow> reachable (keypressEnter s)"
| suggested: "reachable s \<Longrightarrow> reachable (askSuggestedQuestion q s)"
| settled: "reachable s \<Longrightarrow> i < length (pending s) \<Longrightarrow> reachable (sendMessage_settled i r s)"
| other: "reachable s \<Longrightarrow> isProcessingMessage s' = isProcessingMessage s \<Longrightarrow>
            pending s' = pending s \<Longrightarrow> reachable s'"


section \<open>The attribution routine as a state transformer\<close>

text \<open>
  To say what a call of \<open>findPageForText\<close> does to the state, the routine is read a
  second time, statement by statement, as a transformer of a frame. The frame holds the
  whole application state, which any statement could write, and the local variables
  \<open>pageNum\<close>, \<open>bestMatch\<close> and \<open>score\<close>. A global is read from the frame at the
  place where the source reads it, so the loop tests \<open>pageNum\<close> against \<open>totalPages\<close> and
  looks \<open>pageTextContent\<close> up anew in every iteration. A step is \<open>None\<close> where the
  source raises a \<open>TypeError\<close>.
\<close>

record frame =
  f_globals :: app
  f_pageNum :: nat
  f_bestMatch :: best_match
  f_score :: nat

definition forEachWord :: "string \<Rightarrow> frame \<Rightarrow> string \<Rightarrow> frame" where
  \<comment> \<open>the callback of \<open>meaningfulWords.forEach\<close>:
      \<open>if (pageTextLower.includes(word)) score += 10\<close>\<close>
  "forEachWord pageTextLower f word =
     (if js_includes pageTextLower word then f\<lparr>f_score := f_score f + 10\<rparr> else f)"

definition loopBody :: "string \<Rightarrow> string list \<Rightarrow> frame \<Rightarrow> frame option" where
  \<comment> \<open>The body of the \<open>for\<close> loop. \<open>pageTextContent[pageNum]\<close> is read from the
      state as it is now; on \<open>null\<close> the read raises. \<open>continue\<close> leaves the frame as it
      is; otherwise \<open>score\<close> is set to 0, raised by 100 and by the callback, and compared
      with \<open>bestMatch.score\<close>.\<close>
  "loopBody cs ws f =
     (case pageTextContent (f_globals f) of
        None \<Rightarrow> None
      | Some m \<Rightarrow>
          (case m (f_pageNum f) of
             None \<Rightarrow> Some f
           | Some pageText \<Rightarrow>
               if pageText = [] then Some f
               else (let pageTextLower = toLowerCase pageText;
                         f1 = f\<lparr>f_score := 0\<rparr>;
                         f2 = (if js_includes pageTextLower cs
                               then f1\<lparr>f_score := f_score f1 + 100\<rparr> else f1);
                         f3 = foldl (forEachWord pageTextLower) f2 ws
                     in Some (if f_score f3 > score (f_bestMatch f3)
                              then f3\<lparr>f_bestMatch := \<lparr>page = f_pageNum f3, score = f_score f3\<rparr>\<rparr>
                              else f3))))"

function findLoop_run :: "string \<Rightarrow> string list \<Rightarrow> frame \<Rightarrow> frame option" where
  \<comment> \<open>The \<open>for\<close> loop: the test \<open>pageNum <= totalPages\<close> reads the global before every
      iteration, and \<open>pageNum++\<close> follows the body.\<close>
  "findLoop_run cs ws f =
     (if f_pageNum f \<le> totalPages (f_globals f) then
        (case loopBody cs ws f of
           None \<Rightarrow> None
         | Some f' \<Rightarrow> findLoop_run cs ws (f'\<lparr>f_pageNum := Suc (f_pageNum f')\<rparr>))
      else Some f)"
  by pat_completeness auto
termination
proof (relation "measure (\<lambda>(cs, ws, f). Suc (totalPages (f_globals f)) - f_pageNum f)")
  show "wf (measure (\<lambda>(cs, ws, f). Suc (totalPages (f_globals f)) - f_pageNum f))"
    by simp
next
  fix cs :: string and ws :: "string list" and f f' :: frame
  assume le: "f_pageNum f \<le> totalPages (f_globals f)" and body: "loopBody cs ws f = Some f'"
  have words: "f_globals (foldl (forEachWord t) h us) = f_globals h \<and>
               f_pageNum (foldl (forEachWord t) h us) = f_pageNum h" for t h us
    by (induction us arbitrary: h) (simp_all add: forEachWord_def)
  have "f_globals f' = f_globals f \<and> f_pageNum f' = f_pageNum f"
    using body words
    by (auto simp: loopBody_def Let_def split: option.splits if_splits)
  then show "((cs, ws, f'\<lparr>f_pageNum := Suc (f_pageNum f')\<rparr>), (cs, ws, f))
               \<in> measure (\<lambda>(cs, ws, f). Suc (totalPages (f_globals f)) - f_pageNum f)"
    using le by simp
qed

declare findLoop_run.simps [simp del]

definition findPageForText_run :: "string option \<Rightarrow> app \<Rightarrow> (nat \<times> app) option" where
  \<comment> \<open>A call of \<open>findPageForText\<close> in state \<open>g\<close>: the page number returned and the
      state the call leaves behind, or \<open>None\<close> when it raises.\<close>
  "findPageForText_run searchText g =
     (case searchText of
        None \<Rightarrow> Some (1, g)
      | Some st \<Rightarrow>
          if st = [] then Some (1, g)
          else (case pageTextContent g of
                  None \<Rightarrow> Some (1, g)
                | Some m \<Rightarrow>
                    (let cs = cleanSearch st;
                         ws = meaningfulWords cs
                     in if ws = [] then Some (1, g)
                        else (case findLoop_run cs ws
                                     \<lparr>f_globals = g, f_pageNum = 1,
                                      f_bestMatch = \<lparr>page = 1, score = 0\<rparr>, f_score = 0\<rparr> of
                                None \<Rightarrow> None
                              | Some f \<Rightarrow>
                                  Some (if score (f_bestMatch f) > 0 then page (f_bestMatch f) else 1,
                                        f_globals f)))))"


section \<open>Notions used to state the properties\<close>

definition scoreAt :: "(nat \<rightharpoonup> string) \<Rightarrow> string \<Rightarrow> string list \<Rightarrow> nat \<Rightarrow> nat" where
  \<comment> \<open>What page \<open>p\<close> brings to the comparison with \<open>bestMatch.score\<close>: the score of its
      text, and 0, the value \<open>bestMatch.score\<close> starts from, for a page the loop skips.\<close>
  "scoreAt ptc cs ws p =
     (case ptc p of
        None \<Rightarrow> 0
      | Some pageText \<Rightarrow> if pageText = [] then 0 else pageScore cs ws pageText)"

definition loopInv :: "(nat \<rightharpoonup> string) \<Rightarrow> string \<Rightarrow> string list \<Rightarrow> nat \<Rightarrow> best_match \<Rightarrow> bool" where
  \<comment> \<open>The invariant of the page loop before it visits page \<open>k\<close>: no earlier page beats
      \<open>bestMatch\<close>, and a positive \<open>bestMatch\<close> is the first earlier page with its score.\<close>
  "loopInv ptc cs ws k b \<longleftrightarrow>
     (\<forall>p. 1 \<le> p \<and> p < k \<longrightarrow> scoreAt ptc cs ws p \<le> score b) \<and>
     (0 < score b \<longrightarrow>
        1 \<le> page b \<and> page b < k \<and> scoreAt ptc cs ws (page b) = score b \<and>
        (\<forall>p. 1 \<le> p \<and> p < page b \<longrightarrow> scoreAt ptc cs ws p < score b))"

definition distinctWordScore :: "string \<Rightarrow> string \<Rightarrow> nat" where
  \<comment> \<open>The score in the words of the specification when each content word is counted
      once, however often the segment repeats it. Only compared with \<open>pageScore\<close>.\<close>
  "distinctWordScore seg pageText =
     (let cs = cleanSearch seg; t = toLowerCase pageText
      in (if js_includes t cs then 100 else 0) +
         10 * length (filter (js_includes t) (remdups (meaningfulWords cs))))"

primrec collapseWs :: "bool \<Rightarrow> string \<Rightarrow> string" where
  \<comment> \<open>every run of white space becomes one blank\<close>
  "collapseWs inRun [] = []"
| "collapseWs inRun (c # cs) =
     (if isSpace c then (if inRun then collapseWs True cs else CHR '' '' # collapseWs True cs)
      else c # collapseWs False cs)"

definition normalizeSpec :: "string \<Rightarrow> string" where
  \<comment> \<open>The normal form in the words of the specification: case-fold, strip punctuation,
      collapse white space. Only compared with what the code does.\<close>
  "normalizeSpec s =
     trim (collapseWs False (filter (\<lambda>c. isWordChar c \<or> isSpace c) (toLowerCase s)))"

definition normalizedScore :: "string \<Rightarrow> string \<Rightarrow> nat" where
  \<comment> \<open>The score in the words of the specification when the substring test and the word
      tests are made on the normal forms of both the segment and the page text.\<close>
  "normalizedScore seg pageText =
     (let a = normalizeSpec seg; t = normalizeSpec pageText
      in (if js_includes t a then 100 else 0) +
         10 * length (filter (js_includes t) (filter (\<lambda>w. length w > 3) (split_ws a))))"


section \<open>The page loop\<close>

text \<open>
  \<open>findLoop\<close> is defined by its own recursion, with the distance to \<open>totalPages\<close> as the
  measure that proves it terminates; \<open>findPageForText\<close> is therefore a total function.
\<close>

lemma foldl_add10:
  "foldl (\<lambda>sc w. if P w then sc + 10 else sc) a ws = a + 10 * length (filter P ws)"
  by (induction ws arbitrary: a) auto

lemma pageScore_closed:
  "pageScore cs ws t =
     (if js_includes (toLowerCase t) cs then 100 else 0) +
     10 * length (filter (js_includes (toLowerCase t)) ws)"
  unfolding pageScore_def Let_def by (rule foldl_add10)

lemma visitPage_scoreAt:
  "visitPage ptc cs ws p b =
     (if scoreAt ptc cs ws p > score b then \<lparr>page = p, score = scoreAt ptc cs ws p\<rparr> else b)"
  by (auto simp: visitPage_def scoreAt_def Let_def split: option.splits)

lemma loopInv_step:
  assumes "1 \<le> k" and "loopInv ptc cs ws k b"
  shows "loopInv ptc cs ws (Suc k) (visitPage ptc cs ws k b)"
proof (cases "scoreAt ptc cs ws k > score b")
  case True
  have "\<forall>p. 1 \<le> p \<and> p < k \<longrightarrow> scoreAt ptc cs ws p < scoreAt ptc cs ws k"
    using assms(2) True unfolding loopInv_def by (meson le_less_trans)
  then show ?thesis
    using assms(1) True unfolding loopInv_def visitPage_scoreAt
    by (auto simp: less_Suc_eq dest: less_imp_le)
next
  case False
  then show ?thesis
    using assms(2) unfolding loopInv_def visitPage_scoreAt
    by (auto simp: less_Suc_eq)
qed

lemma findLoop_inv:
  "1 \<le> k \<Longrightarrow> loopInv ptc cs ws k b \<Longrightarrow>
     loopInv ptc cs ws (max k (Suc tp)) (findLoop ptc cs ws tp k b)"
proof (induction ptc cs ws tp k b rule: findLoop.induct)
  case (1 ptc cs ws tp pageNum bestMatch)
  show ?case
  proof (cases "pageNum \<le> tp")
    case True
    have "loopInv ptc cs ws (max (Suc pageNum) (Suc tp))
            (findLoop ptc cs ws tp (Suc pageNum) (visitPage ptc cs ws pageNum bestMatch))"
      using "1.IH" [OF True] loopInv_step [OF "1.prems"] by simp
    moreover have "max (Suc pageNum) (Suc tp) = max pageNum (Suc tp)"
      using True by simp
    ultimately show ?thesis
      using True by (subst findLoop.simps) simp
  next
    case False
    then have "max pageNum (Suc tp) = pageNum" by simp
    then show ?thesis
      using False "1.prems"(2) by (subst findLoop.simps) simp
  qed
qed

lemma findLoop_from_1:
  "loopInv ptc cs ws (Suc tp) (findLoop ptc cs ws tp 1 \<lparr>page = 1, score = 0\<rparr>)"
proof -
  have "loopInv ptc cs ws 1 \<lparr>page = 1, score = 0\<rparr>"
    by (simp add: loopInv_def)
  from findLoop_inv [OF _ this, of tp] show ?thesis by simp
qed

lemma meaningfulWords_empty: "meaningfulWords (cleanSearch []) = []"
  by (simp add: meaningfulWords_def cleanSearch_def trim_def toLowerCase_def replacePunct_def split_ws_def)
lemma findPageForText_best:
  assumes "pageTextContent g = Some ptc"
    and "meaningfulWords (cleanSearch seg) \<noteq> []"
  shows "let cs = cleanSearch seg; ws = meaningfulWords cs; r = findPageForText g (Some seg)
         in 1 \<le> r \<and> r \<le> max 1 (totalPages g) \<and>
            (\<forall>p\<in>{1..totalPages g}. scoreAt ptc cs ws p \<le> scoreAt ptc cs ws r) \<and>
            (\<forall>p\<in>{1..<r}. scoreAt ptc cs ws p < scoreAt ptc cs ws r)"
proof -
  define cs where "cs = cleanSearch seg"
  define ws where "ws = meaningfulWords cs"
  define b where "b = findLoop ptc cs ws (totalPages g) 1 \<lparr>page = 1, score = 0\<rparr>"
  define r where "r = findPageForText g (Some seg)"
  have seg: "seg \<noteq> []"
    using assms(2) meaningfulWords_empty by auto
  have r: "r = (if 0 < score b then page b else 1)"
    using assms seg unfolding r_def b_def ws_def cs_def
    by (simp add: findPageForText_def Let_def)
  have inv: "loopInv ptc cs ws (Suc (totalPages g)) b"
    unfolding b_def by (rule findLoop_from_1)
  have "1 \<le> r \<and> r \<le> max 1 (totalPages g) \<and>
        (\<forall>p\<in>{1..totalPages g}. scoreAt ptc cs ws p \<le> scoreAt ptc cs ws r) \<and>
        (\<forall>p\<in>{1..<r}. scoreAt ptc cs ws p < scoreAt ptc cs ws r)"
  proof (cases "0 < score b")
    case True
    then show ?thesis
      using inv r unfolding loopInv_def by (auto simp: less_Suc_eq_le)
  next
    case False
    then have "\<forall>p\<in>{1..totalPages g}. scoreAt ptc cs ws p = 0"
      using inv unfolding loopInv_def by (auto simp: less_Suc_eq_le)
    then show ?thesis
      using False r by simp
  qed
  then show ?thesis
    unfolding r_def ws_def cs_def Let_def .
qed

lemma findPageForText_ge_1: "1 \<le> findPageForText g searchText"
proof (cases "\<exists>st ptc. searchText = Some st \<and> pageTextContent g = Some ptc \<and>
                 meaningfulWords (cleanSearch st) \<noteq> []")
  case True
  then obtain st ptc where "searchText = Some st" "pageTextContent g = Some ptc"
      "meaningfulWords (cleanSearch st) \<noteq> []" by blast
  then show ?thesis
    using findPageForText_best [of g ptc st] by (simp add: Let_def)
next
  case False
  then show ?thesis
    by (auto simp: findPageForText_def Let_def split: option.splits)
qed

lemma findPageForText_no_score:
  assumes "seg = [] \<or> meaningfulWords (cleanSearch seg) = [] \<or>
           (\<forall>ptc. pageTextContent g = Some ptc \<longrightarrow>
              (\<forall>p\<in>{1..totalPages g}.
                 scoreAt ptc (cleanSearch seg) (meaningfulWords (cleanSearch seg)) p = 0))"
  shows "findPageForText g (Some seg) = 1"
proof (cases "\<exists>ptc. pageTextContent g = Some ptc \<and> seg \<noteq> [] \<and> meaningfulWords (cleanSearch seg) \<noteq> []")
  case True
  then obtain ptc where ptc: "pageTextContent g = Some ptc" and seg: "seg \<noteq> []"
    and ws: "meaningfulWords (cleanSearch seg) \<noteq> []" by blast
  define b where "b = findLoop ptc (cleanSearch seg) (meaningfulWords (cleanSearch seg))
                        (totalPages g) 1 \<lparr>page = 1, score = 0\<rparr>"
  have zero: "\<forall>p\<in>{1..totalPages g}.
                scoreAt ptc (cleanSearch seg) (meaningfulWords (cleanSearch seg)) p = 0"
    using assms ptc seg ws by blast
  have inv: "loopInv ptc (cleanSearch seg) (meaningfulWords (cleanSearch seg)) (Suc (totalPages g)) b"
    unfolding b_def by (rule findLoop_from_1)
  have "score b = 0"
  proof (rule ccontr)
    assume "score b \<noteq> 0"
    then have "0 < score b" by simp
    with inv have "1 \<le> page b" "page b \<le> totalPages g"
        "scoreAt ptc (cleanSearch seg) (meaningfulWords (cleanSearch seg)) (page b) = score b"
      unfolding loopInv_def by (auto simp: less_Suc_eq_le)
    with zero \<open>0 < score b\<close> show False by auto
  qed
  then show ?thesis
    using ptc seg ws unfolding b_def by (simp add: findPageForText_def Let_def)
next
  case False
  then show ?thesis
    by (auto simp: findPageForText_def Let_def split: option.splits)
qed

lemma js_includes_iff: "js_includes h n \<longleftrightarrow> sublist n h"
  by (induction h) (auto simp: sublist_Cons_right)

lemma sublist_map_both: "sublist xs ys \<Longrightarrow> sublist (map f xs) (map f ys)"
  unfolding sublist_def by (metis map_append)

lemma sublist_trim: "sublist (trim s) s"
proof -
  have "prefix (rev (dropWhile isSpace (rev (dropWhile isSpace s)))) (dropWhile isSpace s)"
    using suffix_dropWhile [of isSpace "rev (dropWhile isSpace s)"]
    by (simp add: suffix_to_prefix)
  then have "sublist (trim s) (dropWhile isSpace s)"
    unfolding trim_def by (rule prefix_imp_sublist)
  moreover have "sublist (dropWhile isSpace s) s"
    by (rule suffix_imp_sublist) (rule suffix_dropWhile)
  ultimately show ?thesis
    by (rule sublist_order.order.trans)
qed

lemma verbatim_includes_clean:
  assumes "js_includes t seg"
  shows "js_includes (toLowerCase t) (cleanSearch seg)"
proof -
  have "sublist (toLowerCase seg) (toLowerCase t)"
    using assms unfolding js_includes_iff toLowerCase_def by (rule sublist_map_both)
  moreover have "sublist (cleanSearch seg) (toLowerCase seg)"
    unfolding cleanSearch_def by (rule sublist_trim)
  ultimately show ?thesis
    unfolding js_includes_iff by (meson sublist_order.order.trans)
qed

lemma findPageForText_only_page:
  assumes ptc: "pageTextContent g = Some ptc"
    and k: "1 \<le> k" "k \<le> totalPages g"
    and ws: "meaningfulWords (cleanSearch seg) \<noteq> []"
    and hit: "0 < scoreAt ptc (cleanSearch seg) (meaningfulWords (cleanSearch seg)) k"
    and others: "\<forall>q\<in>{1..totalPages g}. q \<noteq> k \<longrightarrow>
                   scoreAt ptc (cleanSearch seg) (meaningfulWords (cleanSearch seg)) q = 0"
  shows "findPageForText g (Some seg) = k"
proof -
  define r where "r = findPageForText g (Some seg)"
  have best: "1 \<le> r" "r \<le> max 1 (totalPages g)"
     "\<forall>p\<in>{1..totalPages g}. scoreAt ptc (cleanSearch seg) (meaningfulWords (cleanSearch seg)) p
         \<le> scoreAt ptc (cleanSearch seg) (meaningfulWords (cleanSearch seg)) r"
    using findPageForText_best [OF ptc ws] unfolding r_def Let_def by auto
  have "r \<in> {1..totalPages g}" using best(1,2) k by auto
  moreover have "0 < scoreAt ptc (cleanSearch seg) (meaningfulWords (cleanSearch seg)) r"
    using best(3) k hit by (metis atLeastAtMost_iff less_le_trans)
  ultimately have "r = k" using others by auto
  then show ?thesis unfolding r_def .
qed


section \<open>Content words\<close>

lemma toLowerChar_not_upper: "\<not> isUpper (toLowerChar c)"
  by (auto simp: toLowerChar_def isUpper_def isUpperLatin1_def Let_def)

lemma splitWs_pieces:
  "(\<forall>c\<in>set cur. P c) \<Longrightarrow> (\<forall>c\<in>set s. \<not> isSpace c \<longrightarrow> P c) \<Longrightarrow>
     w \<in> set (splitWs f cur s) \<Longrightarrow> c \<in> set w \<Longrightarrow> P c"
proof (induction s arbitrary: f cur)
  case Nil
  then show ?case by auto
next
  case (Cons a s)
  have rest: "\<forall>c\<in>set s. \<not> isSpace c \<longrightarrow> P c"
    using Cons.prems(2) by simp
  show ?case
  proof (cases "isSpace a")
    case False
    then have "\<forall>c\<in>set (a # cur). P c"
      using Cons.prems(1,2) by simp
    moreover have "w \<in> set (splitWs False (a # cur) s)"
      using Cons.prems(3) False by simp
    ultimately show ?thesis
      using Cons.IH rest Cons.prems(4) by blast
  next
    case True
    show ?thesis
    proof (cases f)
      case True
      with \<open>isSpace a\<close> have "w \<in> set (splitWs True cur s)"
        using Cons.prems(3) by simp
      then show ?thesis
        using Cons.IH Cons.prems(1) rest Cons.prems(4) by blast
    next
      case False
      with \<open>isSpace a\<close> have "w = rev cur \<or> w \<in> set (splitWs True [] s)"
        using Cons.prems(3) by simp
      then show ?thesis
      proof
        assume "w = rev cur"
        then show ?thesis using Cons.prems(1,4) by simp
      next
        assume "w \<in> set (splitWs True [] s)"
        moreover have "\<forall>c\<in>set []. P c" by simp
        ultimately show ?thesis
          using Cons.IH rest Cons.prems(4) by blast
      qed
    qed
  qed
qed

lemma isWordChar_not_space: "isWordChar c \<Longrightarrow> \<not> isSpace c"
  by (auto simp: isWordChar_def isSpace_def Let_def)

lemma isSpace_blank: "isSpace (CHR '' '')"
  by (simp add: isSpace_def)

lemma meaningfulWords_chars:
  assumes "w \<in> set (meaningfulWords (cleanSearch seg))" and "c \<in> set w"
  shows "isWordChar c \<and> \<not> isUpper c"
proof -
  have low: "\<forall>c\<in>set (cleanSearch seg). \<not> isUpper c"
    using set_mono_sublist [OF sublist_trim, of "toLowerCase seg"]
    by (auto simp: cleanSearch_def toLowerCase_def toLowerChar_not_upper)
  have "\<forall>c\<in>set (replacePunct (cleanSearch seg)). \<not> isSpace c \<longrightarrow> isWordChar c \<and> \<not> isUpper c"
    using low by (auto simp: replacePunct_def isSpace_blank split: if_splits)
  then have "\<forall>w\<in>set (split_ws (replacePunct (cleanSearch seg))). \<forall>c\<in>set w. isWordChar c \<and> \<not> isUpper c"
    unfolding split_ws_def using splitWs_pieces [of "[]" "\<lambda>c. isWordChar c \<and> \<not> isUpper c"]
    by (metis empty_iff empty_set)
  then show ?thesis
    using assms by (auto simp: meaningfulWords_def)
qed


section \<open>The score of a page\<close>

text \<open>
  Claim C1, as amended. For a segment and a page that has text, the score of the page
  is 100 if the case-folded, trimmed segment occurs in the case-folded page text, plus 10
  for every content word of the segment that occurs there. The content words are the
  pieces, longer than 3 characters, that white space separates once punctuation has been
  replaced by blanks; a word that the segment repeats is counted each time.
\<close>

theorem pageScore_counts_every_word:
  "pageScore (cleanSearch seg) (meaningfulWords (cleanSearch seg)) pageText =
     (if js_includes (toLowerCase pageText) (cleanSearch seg) then 100 else 0) +
     10 * length (filter (\<lambda>word. js_includes (toLowerCase pageText) word)
                    (meaningfulWords (cleanSearch seg)))"
  by (rule pageScore_closed)

text \<open>
  The segment \<open>data data\<close> scores 20 on the page \<open>data\<close>: its one distinct content
  word is counted twice.
\<close>

theorem repeated_word_counterexample:
  "pageScore (cleanSearch ''data data'') (meaningfulWords (cleanSearch ''data data'')) ''data'' = 20
   \<and> distinctWordScore ''data data'' ''data'' = 10"
  by code_simp

text \<open>
  Claim C2, as amended. The score depends on the segment and on the page text only
  through their case-folded forms, and the segment is trimmed. Punctuation is replaced by
  blanks and white space is split away only to cut the content words out of the segment,
  so that a content word is longer than 3 characters and made of lower-case letters,
  digits and underscores. The substring test takes the case-folded, trimmed segment as it
  stands, punctuation and inner white space included, and both tests read the page text
  case-folded and otherwise unchanged.
\<close>

theorem scoring_on_lowered_forms:
  "(toLowerCase seg = toLowerCase seg' \<and> toLowerCase t = toLowerCase t' \<longrightarrow>
      pageScore (cleanSearch seg) (meaningfulWords (cleanSearch seg)) t =
      pageScore (cleanSearch seg') (meaningfulWords (cleanSearch seg')) t') \<and>
   (\<forall>w\<in>set (meaningfulWords (cleanSearch seg)).
      3 < length w \<and> (\<forall>c\<in>set w. isWordChar c \<and> \<not> isUpper c)) \<and>
   pageScore (cleanSearch seg) (meaningfulWords (cleanSearch seg)) t =
     (if js_includes (toLowerCase t) (trim (toLowerCase seg)) then 100 else 0) +
     10 * length (filter (js_includes (toLowerCase t))
                    (filter (\<lambda>word. length word > 3)
                       (split_ws (replacePunct (trim (toLowerCase seg))))))"
proof (intro conjI impI ballI)
  assume "toLowerCase seg = toLowerCase seg' \<and> toLowerCase t = toLowerCase t'"
  then show "pageScore (cleanSearch seg) (meaningfulWords (cleanSearch seg)) t =
      pageScore (cleanSearch seg') (meaningfulWords (cleanSearch seg')) t'"
    by (simp add: pageScore_def cleanSearch_def)
next
  fix w assume "w \<in> set (meaningfulWords (cleanSearch seg))"
  then show "3 < length w" by (simp add: meaningfulWords_def)
next
  fix w c assume "w \<in> set (meaningfulWords (cleanSearch seg))" "c \<in> set w"
  then show "isWordChar c" "\<not> isUpper c" using meaningfulWords_chars by blast+
next
  show "pageScore (cleanSearch seg) (meaningfulWords (cleanSearch seg)) t =
     (if js_includes (toLowerCase t) (trim (toLowerCase seg)) then 100 else 0) +
     10 * length (filter (js_includes (toLowerCase t))
                    (filter (\<lambda>word. length word > 3)
                       (split_ws (replacePunct (trim (toLowerCase seg))))))"
    by (simp add: pageScore_closed cleanSearch_def meaningfulWords_def)
qed

theorem scoring_on_lowered_forms_witness:
  "pageScore (cleanSearch ''Hello, World'') (meaningfulWords (cleanSearch ''Hello, World'')) ''hello, world!'' = 120 \<and>
   pageScore (cleanSearch ''HELLO, world'') (meaningfulWords (cleanSearch ''HELLO, world'')) ''Hello, WORLD!'' = 120 \<and>
   ''hello'' \<in> set (meaningfulWords (cleanSearch ''Hello, World'')) \<and>
   isWordChar (CHR ''h'') \<and> \<not> isUpper (CHR ''h'')"
proof -
  have h: "toLowerCase ''Hello, World'' = toLowerCase ''HELLO, world'' \<and>
           toLowerCase ''hello, world!'' = toLowerCase ''Hello, WORLD!''"
    by code_simp
  have e: "pageScore (cleanSearch ''Hello, World'') (meaningfulWords (cleanSearch ''Hello, World'')) ''hello, world!'' = 120"
    by code_simp
  have m: "''hello'' \<in> set (meaningfulWords (cleanSearch ''Hello, World''))"
    by code_simp
  note t = scoring_on_lowered_forms [of "''Hello, World''" "''HELLO, world''" "''hello, world!''" "''Hello, WORLD!''"]
  from t h have "pageScore (cleanSearch ''Hello, World'') (meaningfulWords (cleanSearch ''Hello, World'')) ''hello, world!'' =
      pageScore (cleanSearch ''HELLO, world'') (meaningfulWords (cleanSearch ''HELLO, world'')) ''Hello, WORLD!''"
    by blast
  moreover from t m have "\<forall>c\<in>set ''hello''. isWordChar c \<and> \<not> isUpper c"
    by blast
  ultimately show ?thesis using e m by simp
qed

text \<open>
  The segment \<open>Hello, world\<close> scores 20 on the page \<open>hello world\<close>: the comma stays in
  the string that the substring test looks for, so only the two words count. On the
  punctuation-free forms of both strings the score would be 120.
\<close>

theorem punctuation_kept_counterexample:
  "pageScore (cleanSearch ''Hello, world'') (meaningfulWords (cleanSearch ''Hello, world''))
     ''hello world'' = 20
   \<and> normalizedScore ''Hello, world'' ''hello world'' = 120"
  by code_simp


section \<open>The page that is returned\<close>

text \<open>
  Claim C3, as amended. For a segment with at least one content word, the page returned
  lies in \<open>1..totalPages\<close> (it is page 1 when \<open>totalPages\<close> is 0), no page of
  \<open>1..totalPages\<close> has a greater score, and every page before it has a strictly smaller
  score: it is the lowest-numbered page of maximal score.
\<close>

theorem findPageForText_lowest_best_page:
  assumes "pageTextContent g = Some ptc"
    and "meaningfulWords (cleanSearch seg) \<noteq> []"
  shows "let cs = cleanSearch seg; ws = meaningfulWords cs; r = findPageForText g (Some seg)
         in 1 \<le> r \<and> r \<le> max 1 (totalPages g) \<and>
            (\<forall>p\<in>{1..totalPages g}. scoreAt ptc cs ws p \<le> scoreAt ptc cs ws r) \<and>
            (\<forall>p\<in>{1..<r}. scoreAt ptc cs ws p < scoreAt ptc cs ws r)"
  using assms by (rule findPageForText_best)

theorem findPageForText_lowest_best_page_witness:
  "findPageForText
     ((initialApp None None)\<lparr>pageTextContent :=
         Some [1 \<mapsto> ''a dog'', 2 \<mapsto> ''Photosynthesis occurs in chloroplasts.'',
               3 \<mapsto> ''photosynthesis occurs in the leaf''], totalPages := 3\<rparr>)
     (Some ''Photosynthesis occurs'') = 2 \<and>
   scoreAt [1 \<mapsto> ''a dog'', 2 \<mapsto> ''Photosynthesis occurs in chloroplasts.'',
            3 \<mapsto> ''photosynthesis occurs in the leaf'']
     (cleanSearch ''Photosynthesis occurs'') (meaningfulWords (cleanSearch ''Photosynthesis occurs'')) 3
   \<le> scoreAt [1 \<mapsto> ''a dog'', 2 \<mapsto> ''Photosynthesis occurs in chloroplasts.'',
            3 \<mapsto> ''photosynthesis occurs in the leaf'']
     (cleanSearch ''Photosynthesis occurs'') (meaningfulWords (cleanSearch ''Photosynthesis occurs'')) 2 \<and>
   scoreAt [1 \<mapsto> ''a dog'', 2 \<mapsto> ''Photosynthesis occurs in chloroplasts.'',
            3 \<mapsto> ''photosynthesis occurs in the leaf'']
     (cleanSearch ''Photosynthesis occurs'') (meaningfulWords (cleanSearch ''Photosynthesis occurs'')) 1
   < scoreAt [1 \<mapsto> ''a dog'', 2 \<mapsto> ''Photosynthesis occurs in chloroplasts.'',
            3 \<mapsto> ''photosynthesis occurs in the leaf'']
     (cleanSearch ''Photosynthesis occurs'') (meaningfulWords (cleanSearch ''Photosynthesis occurs'')) 2"
proof -
  define ptc :: "nat \<rightharpoonup> string" where
    "ptc = [1 \<mapsto> ''a dog'', 2 \<mapsto> ''Photosynthesis occurs in chloroplasts.'',
            3 \<mapsto> ''photosynthesis occurs in the leaf'']"
  define g where "g = (initialApp None None)\<lparr>pageTextContent := Some ptc, totalPages := 3\<rparr>"
  have h1: "pageTextContent g = Some ptc" and tp: "totalPages g = 3"
    by (simp_all add: g_def)
  have h2: "meaningfulWords (cleanSearch ''Photosynthesis occurs'') \<noteq> []"
    by code_simp
  have r: "findPageForText g (Some ''Photosynthesis occurs'') = 2"
    unfolding g_def ptc_def by code_simp
  from findPageForText_lowest_best_page [OF h1 h2] r tp show ?thesis
    unfolding Let_def g_def ptc_def by simp
qed

text \<open>
  The segment \<open>the cat\<close> has no content word. Page 2 holds it verbatim and would score
  100, page 1 would score 0, and the routine returns page 1 before any page is scored.
\<close>

theorem no_content_word_counterexample:
  "findPageForText
     ((initialApp None None)\<lparr>pageTextContent := Some [1 \<mapsto> ''a dog'', 2 \<mapsto> ''the cat''],
                               totalPages := 2\<rparr>)
     (Some ''the cat'') = 1 \<and>
   scoreAt [1 \<mapsto> ''a dog'', 2 \<mapsto> ''the cat'']
     (cleanSearch ''the cat'') (meaningfulWords (cleanSearch ''the cat'')) 1 = 0 \<and>
   scoreAt [1 \<mapsto> ''a dog'', 2 \<mapsto> ''the cat'']
     (cleanSearch ''the cat'') (meaningfulWords (cleanSearch ''the cat'')) 2 = 100"
  by code_simp

text \<open>
  Claim C4. A segment that is empty or \<open>null\<close>, or has no content word, or for which
  every page of \<open>1..totalPages\<close> scores 0, is attributed to page 1.
\<close>

theorem findPageForText_default_page:
  assumes "seg = [] \<or> meaningfulWords (cleanSearch seg) = [] \<or>
           (\<forall>ptc. pageTextContent g = Some ptc \<longrightarrow>
              (\<forall>p\<in>{1..totalPages g}.
                 scoreAt ptc (cleanSearch seg) (meaningfulWords (cleanSearch seg)) p = 0))"
  shows "findPageForText g (Some seg) = 1 \<and> findPageForText g None = 1"
  using findPageForText_no_score [OF assms] by (simp add: findPageForText_def)

theorem findPageForText_default_page_witness:
  "scoreAt [1 \<mapsto> ''a dog'', 2 \<mapsto> ''the cat'']
     (cleanSearch ''zebra stripes'') (meaningfulWords (cleanSearch ''zebra stripes'')) 1 = 0 \<and>
   scoreAt [1 \<mapsto> ''a dog'', 2 \<mapsto> ''the cat'']
     (cleanSearch ''zebra stripes'') (meaningfulWords (cleanSearch ''zebra stripes'')) 2 = 0 \<and>
   findPageForText
     ((initialApp None None)\<lparr>pageTextContent := Some [1 \<mapsto> ''a dog'', 2 \<mapsto> ''the cat''],
                               totalPages := 2\<rparr>)
     (Some ''zebra stripes'') = 1"
proof -
  define ptc :: "nat \<rightharpoonup> string" where "ptc = [1 \<mapsto> ''a dog'', 2 \<mapsto> ''the cat'']"
  define g where "g = (initialApp None None)\<lparr>pageTextContent := Some ptc, totalPages := 2\<rparr>"
  have z1: "scoreAt ptc (cleanSearch ''zebra stripes'') (meaningfulWords (cleanSearch ''zebra stripes'')) 1 = 0"
    and z2: "scoreAt ptc (cleanSearch ''zebra stripes'') (meaningfulWords (cleanSearch ''zebra stripes'')) 2 = 0"
    unfolding ptc_def by code_simp+
  have "{1..totalPages g} = {1, 2}"
    by (auto simp: g_def)
  then have "\<forall>p\<in>{1..totalPages g}.
      scoreAt ptc (cleanSearch ''zebra stripes'') (meaningfulWords (cleanSearch ''zebra stripes'')) p = 0"
    using z1 z2 by simp
  then have "\<forall>ptc'. pageTextContent g = Some ptc' \<longrightarrow> (\<forall>p\<in>{1..totalPages g}.
      scoreAt ptc' (cleanSearch ''zebra stripes'') (meaningfulWords (cleanSearch ''zebra stripes'')) p = 0)"
    by (simp add: g_def)
  then have "findPageForText g (Some ''zebra stripes'') = 1"
    using findPageForText_default_page [of "''zebra stripes''" g] by blast
  then show ?thesis
    using z1 z2 unfolding g_def ptc_def by simp
qed

text \<open>
  Claim C6, as amended. Let the segment have at least one content word and occur verbatim
  on page 3, with \<open>3 \<le> totalPages\<close>, and let no other page of \<open>1..totalPages\<close> contain,
  letter case ignored, the trimmed segment or any of its content words. Then the segment
  is attributed to page 3.
\<close>

theorem verbatim_on_page_3:
  assumes "pageTextContent g = Some ptc"
    and "3 \<le> totalPages g"
    and "meaningfulWords (cleanSearch seg) \<noteq> []"
    and "ptc 3 = Some t3"
    and "js_includes t3 seg"
    and "\<forall>q\<in>{1..totalPages g}. \<forall>t. q \<noteq> 3 \<and> ptc q = Some t \<longrightarrow>
           \<not> js_includes (toLowerCase t) (cleanSearch seg) \<and>
           (\<forall>w\<in>set (meaningfulWords (cleanSearch seg)). \<not> js_includes (toLowerCase t) w)"
  shows "findPageForText g (Some seg) = 3"
proof (rule findPageForText_only_page [OF assms(1) _ assms(2) assms(3)])
  show "1 \<le> (3::nat)" by simp
  have seg: "seg \<noteq> []"
    using assms(3) meaningfulWords_empty by auto
  then have "t3 \<noteq> []"
    using assms(5) by (cases t3) auto
  moreover have "js_includes (toLowerCase t3) (cleanSearch seg)"
    using assms(5) by (rule verbatim_includes_clean)
  ultimately show "0 < scoreAt ptc (cleanSearch seg) (meaningfulWords (cleanSearch seg)) 3"
    using assms(4) by (simp add: scoreAt_def pageScore_closed)
  show "\<forall>q\<in>{1..totalPages g}. q \<noteq> 3 \<longrightarrow>
          scoreAt ptc (cleanSearch seg) (meaningfulWords (cleanSearch seg)) q = 0"
  proof (intro ballI impI)
    fix q assume q: "q \<in> {1..totalPages g}" "q \<noteq> 3"
    show "scoreAt ptc (cleanSearch seg) (meaningfulWords (cleanSearch seg)) q = 0"
    proof (cases "ptc q")
      case None
      then show ?thesis by (simp add: scoreAt_def)
    next
      case (Some t)
      with assms(6) q have "\<not> js_includes (toLowerCase t) (cleanSearch seg)"
        and "\<forall>w\<in>set (meaningfulWords (cleanSearch seg)). \<not> js_includes (toLowerCase t) w"
        by blast+
      then have "pageScore (cleanSearch seg) (meaningfulWords (cleanSearch seg)) t = 0"
        by (simp add: pageScore_closed filter_empty_conv)
      with Some show ?thesis by (simp add: scoreAt_def)
    qed
  qed
qed

theorem verbatim_on_page_3_witness:
  "js_includes ''Leaves are green. Photosynthesis occurs in chloroplasts.'' ''Photosynthesis occurs'' \<and>
   findPageForText
     ((initialApp None None)\<lparr>pageTextContent :=
         Some [1 \<mapsto> ''An introduction.'', 2 \<mapsto> ''The mitochondria is the powerhouse.'',
               3 \<mapsto> ''Leaves are green. Photosynthesis occurs in chloroplasts.''],
         totalPages := 3\<rparr>)
     (Some ''Photosynthesis occurs'') = 3"
proof -
  define ptc :: "nat \<rightharpoonup> string" where
    "ptc = [1 \<mapsto> ''An introduction.'', 2 \<mapsto> ''The mitochondria is the powerhouse.'',
            3 \<mapsto> ''Leaves are green. Photosynthesis occurs in chloroplasts.'']"
  define g where "g = (initialApp None None)\<lparr>pageTextContent := Some ptc, totalPages := 3\<rparr>"
  have h1: "pageTextContent g = Some ptc" and h2: "3 \<le> totalPages g"
    by (simp_all add: g_def)
  have h3: "meaningfulWords (cleanSearch ''Photosynthesis occurs'') \<noteq> []"
    by code_simp
  have h4: "ptc 3 = Some ''Leaves are green. Photosynthesis occurs in chloroplasts.''"
    by (simp add: ptc_def)
  have h5: "js_includes ''Leaves are green. Photosynthesis occurs in chloroplasts.'' ''Photosynthesis occurs''"
    by code_simp
  have p1: "\<not> js_includes (toLowerCase ''An introduction.'') (cleanSearch ''Photosynthesis occurs'') \<and>
            (\<forall>w\<in>set (meaningfulWords (cleanSearch ''Photosynthesis occurs'')).
               \<not> js_includes (toLowerCase ''An introduction.'') w)"
    by code_simp
  have p2: "\<not> js_includes (toLowerCase ''The mitochondria is the powerhouse.'') (cleanSearch ''Photosynthesis occurs'') \<and>
            (\<forall>w\<in>set (meaningfulWords (cleanSearch ''Photosynthesis occurs'')).
               \<not> js_includes (toLowerCase ''The mitochondria is the powerhouse.'') w)"
    by code_simp
  have pages: "{1..totalPages g} = {1, 2, 3}"
    by (auto simp: g_def)
  have h6: "\<forall>q\<in>{1..totalPages g}. \<forall>t. q \<noteq> 3 \<and> ptc q = Some t \<longrightarrow>
           \<not> js_includes (toLowerCase t) (cleanSearch ''Photosynthesis occurs'') \<and>
           (\<forall>w\<in>set (meaningfulWords (cleanSearch ''Photosynthesis occurs'')). \<not> js_includes (toLowerCase t) w)"
    unfolding pages using p1 p2 by (simp add: ptc_def)
  from verbatim_on_page_3 [OF h1 h2 h3 h4 h5 h6] h5 show ?thesis
    unfolding g_def ptc_def by simp
qed

text \<open>
  The segment \<open>It is so.\<close> occurs verbatim on page 3 only and has no content word; it is
  attributed to page 1.
\<close>

theorem verbatim_short_words_counterexample:
  "js_includes ''It is so.'' ''It is so.'' \<and>
   \<not> js_includes ''An introduction.'' ''It is so.'' \<and>
   \<not> js_includes ''More text here.'' ''It is so.'' \<and>
   meaningfulWords (cleanSearch ''It is so.'') = [] \<and>
   findPageForText
     ((initialApp None None)\<lparr>pageTextContent :=
         Some [1 \<mapsto> ''An introduction.'', 2 \<mapsto> ''More text here.'', 3 \<mapsto> ''It is so.''],
         totalPages := 3\<rparr>)
     (Some ''It is so.'') = 1"
  by code_simp

text \<open>
  Claim C9. For every segment, \<open>null\<close> and the empty string included, and every state,
  whatever pages the page map has or lacks, \<open>findPageForText\<close> returns a page number that
  is at least 1.
\<close>

theorem findPageForText_at_least_1: "1 \<le> findPageForText g searchText"
  by (rule findPageForText_ge_1)

lemma forEachWord_fold:
  "f_globals (foldl (forEachWord t) h us) = f_globals h \<and>
   f_pageNum (foldl (forEachWord t) h us) = f_pageNum h \<and>
   f_bestMatch (foldl (forEachWord t) h us) = f_bestMatch h \<and>
   f_score (foldl (forEachWord t) h us) =
     foldl (\<lambda>sc word. if js_includes t word then sc + 10 else sc) (f_score h) us"
  by (induction us arbitrary: h) (simp_all add: forEachWord_def)

lemma loopBody_visitPage:
  assumes "pageTextContent (f_globals f) = Some m"
  shows "\<exists>f'. loopBody cs ws f = Some f' \<and> f_globals f' = f_globals f \<and>
           f_pageNum f' = f_pageNum f \<and>
           f_bestMatch f' = visitPage m cs ws (f_pageNum f) (f_bestMatch f)"
  using assms
  by (auto simp: loopBody_def visitPage_def pageScore_def Let_def forEachWord_fold
        split: option.splits)

lemma findLoop_run_findLoop:
  "pageTextContent (f_globals f) = Some m \<Longrightarrow>
     \<exists>f'. findLoop_run cs ws f = Some f' \<and> f_globals f' = f_globals f \<and>
       f_bestMatch f' = findLoop m cs ws (totalPages (f_globals f)) (f_pageNum f) (f_bestMatch f)"
proof (induction cs ws f rule: findLoop_run.induct)
  case (1 cs ws f)
  show ?case
  proof (cases "f_pageNum f \<le> totalPages (f_globals f)")
    case False
    then show ?thesis
      by (subst findLoop_run.simps, subst findLoop.simps) simp
  next
    case True
    from loopBody_visitPage [OF "1.prems", of cs ws] obtain f1 where
      body: "loopBody cs ws f = Some f1" and g1: "f_globals f1 = f_globals f"
      and n1: "f_pageNum f1 = f_pageNum f"
      and b1: "f_bestMatch f1 = visitPage m cs ws (f_pageNum f) (f_bestMatch f)"
      by blast
    define f2 where "f2 = f1\<lparr>f_pageNum := Suc (f_pageNum f1)\<rparr>"
    have "pageTextContent (f_globals f2) = Some m"
      using "1.prems" g1 by (simp add: f2_def)
    from "1.IH" [OF True body, folded f2_def, OF this] obtain f' where
      run: "findLoop_run cs ws f2 = Some f'" and g': "f_globals f' = f_globals f2"
      and b': "f_bestMatch f' =
                 findLoop m cs ws (totalPages (f_globals f2)) (f_pageNum f2) (f_bestMatch f2)"
      by blast
    have "findLoop_run cs ws f = Some f'"
      using True body run by (subst findLoop_run.simps) (simp add: f2_def)
    moreover have "f_globals f' = f_globals f"
      using g' g1 by (simp add: f2_def)
    moreover have "f_bestMatch f' =
        findLoop m cs ws (totalPages (f_globals f)) (f_pageNum f) (f_bestMatch f)"
      using b' g1 n1 b1 True by (subst findLoop.simps) (simp add: f2_def)
    ultimately show ?thesis by blast
  qed
qed

lemma findPageForText_run_eq:
  "findPageForText_run searchText g = Some (findPageForText g searchText, g)"
proof (cases "\<exists>st m. searchText = Some st \<and> st \<noteq> [] \<and> pageTextContent g = Some m \<and>
                 meaningfulWords (cleanSearch st) \<noteq> []")
  case False
  then show ?thesis
    by (auto simp: findPageForText_run_def findPageForText_def Let_def split: option.splits)
next
  case True
  then obtain st m where st: "searchText = Some st" "st \<noteq> []"
    and m: "pageTextContent g = Some m"
    and ws: "meaningfulWords (cleanSearch st) \<noteq> []" by blast
  define f0 where "f0 = \<lparr>f_globals = g, f_pageNum = 1,
                          f_bestMatch = \<lparr>page = 1, score = 0\<rparr>, f_score = 0\<rparr>"
  have "pageTextContent (f_globals f0) = Some m"
    using m by (simp add: f0_def)
  from findLoop_run_findLoop [OF this, of "cleanSearch st" "meaningfulWords (cleanSearch st)"]
  obtain f' where
    "findLoop_run (cleanSearch st) (meaningfulWords (cleanSearch st)) f0 = Some f'"
    "f_globals f' = g"
    "f_bestMatch f' = findLoop m (cleanSearch st) (meaningfulWords (cleanSearch st))
                        (totalPages g) 1 \<lparr>page = 1, score = 0\<rparr>"
    by (auto simp: f0_def)
  then show ?thesis
    using st m ws
    by (simp add: findPageForText_run_def findPageForText_def Let_def f0_def)
qed

text \<open>
  Claim C8. A call of \<open>findPageForText\<close>, read statement by statement on the whole
  application state, raises nothing and ends in the state it started in: the page map,
  every other global and every page element are as before, and the value returned is
  the page number \<open>findPageForText\<close>. Two calls with the same segment, in states that
  agree on \<open>pageTextContent\<close> and \<open>totalPages\<close>, return the same page number whatever
  else the two states hold.
\<close>

theorem findPageForText_run_pure:
  "findPageForText_run searchText g = Some (findPageForText g searchText, g) \<and>
   (pageTextContent g = pageTextContent g' \<and> totalPages g = totalPages g' \<longrightarrow>
      map_option fst (findPageForText_run searchText g) =
      map_option fst (findPageForText_run searchText g'))"
  by (auto simp: findPageForText_run_eq findPageForText_def Let_def split: option.splits)

theorem findPageForText_run_pure_witness:
  "map_option fst
     (findPageForText_run (Some ''The cat sleeps.'')
        ((initialApp None None)\<lparr>pageTextContent := Some [1 \<mapsto> ''a dog'', 2 \<mapsto> ''the cat sleeps''],
                                  totalPages := 2\<rparr>)) = Some 2 \<and>
   findPageForText_run (Some ''The cat sleeps.'')
     ((initialApp (Some ''next question'') (Some True))\<lparr>pageTextContent :=
         Some [1 \<mapsto> ''a dog'', 2 \<mapsto> ''the cat sleeps''],
         totalPages := 2, documentProcessed := True, currentPage := 2,
         isProcessingMessage := True, pending := [''why?'']\<rparr>)
   = Some (2, (initialApp (Some ''next question'') (Some True))\<lparr>pageTextContent :=
         Some [1 \<mapsto> ''a dog'', 2 \<mapsto> ''the cat sleeps''],
         totalPages := 2, documentProcessed := True, currentPage := 2,
         isProcessingMessage := True, pending := [''why?'']\<rparr>)"
proof -
  define g where "g = (initialApp None None)\<lparr>pageTextContent :=
      Some [1 \<mapsto> ''a dog'', 2 \<mapsto> ''the cat sleeps''], totalPages := 2\<rparr>"
  define g' where "g' = (initialApp (Some ''next question'') (Some True))\<lparr>pageTextContent :=
         Some [1 \<mapsto> ''a dog'', 2 \<mapsto> ''the cat sleeps''],
         totalPages := 2, documentProcessed := True, currentPage := 2,
         isProcessingMessage := True, pending := [''why?'']\<rparr>"
  have h: "pageTextContent g = pageTextContent g' \<and> totalPages g = totalPages g'"
    by (simp add: g_def g'_def)
  have e: "findPageForText g (Some ''The cat sleeps.'') = 2"
    unfolding g_def by code_simp
  note t = findPageForText_run_pure [of "Some ''The cat sleeps.''" g g']
  note t' = findPageForText_run_pure [of "Some ''The cat sleeps.''" g' g]
  from t e have r: "map_option fst (findPageForText_run (Some ''The cat sleeps.'') g) = Some 2"
    by simp
  from t h r have "map_option fst (findPageForText_run (Some ''The cat sleeps.'') g') = Some 2"
    by simp
  moreover from t' have "map_option snd (findPageForText_run (Some ''The cat sleeps.'') g') = Some g'"
    by simp
  ultimately have "findPageForText_run (Some ''The cat sleeps.'') g' = Some (2, g')"
    by (cases "findPageForText_run (Some ''The cat sleeps.'') g'") auto
  with r show ?thesis unfolding g_def g'_def by simp
qed


section \<open>Rendered answers\<close>

text \<open>
  Claim C5. A list item is given a page reference without being tested for the phrase
  \<open>don't have information\<close>: the dash item below is rendered as a row that refers to page
  2, while the same sentence without the dash is rendered as a paragraph with no page.
\<close>

theorem list_item_no_information_gets_page:
  "formatAIResponse
     ((initialApp None None)\<lparr>pageTextContent :=
         Some [1 \<mapsto> ''Contents'', 2 \<mapsto> ''General information about chloroplasts''],
         totalPages := 2\<rparr>)
     ''- I don't have information about that.''
   = [PageRefRow True ''I don't have information about that.'' 2] \<and>
   formatAIResponse
     ((initialApp None None)\<lparr>pageTextContent :=
         Some [1 \<mapsto> ''Contents'', 2 \<mapsto> ''General information about chloroplasts''],
         totalPages := 2\<rparr>)
     ''I don't have information about that.''
   = [Paragraph ''I don't have information about that.'']"
  by code_simp


section \<open>The chat flow\<close>

text \<open>
  Claim C7. While \<open>documentProcessed\<close> is false, \<open>sendMessage\<close> returns at its guard: the
  state is unchanged, and in particular no \<open>/chat\<close> request has been added.
\<close>

theorem sendMessage_without_document:
  "\<not> documentProcessed s \<Longrightarrow> sendMessage s = s \<and> pending (sendMessage s) = pending s"
  by (simp add: sendMessage_def Let_def split: option.splits)

theorem sendMessage_without_document_witness:
  "\<not> documentProcessed (initialApp (Some ''What is this about?'') (Some False)) \<and>
   sendMessage (initialApp (Some ''What is this about?'') (Some False))
     = initialApp (Some ''What is this about?'') (Some False) \<and>
   pending (sendMessage (initialApp (Some ''What is this about?'') (Some False))) = []"
proof -
  have h: "\<not> documentProcessed (initialApp (Some ''What is this about?'') (Some False))"
    by (simp add: initialApp_def)
  have p: "pending (initialApp (Some ''What is this about?'') (Some False)) = []"
    by (simp add: initialApp_def)
  from sendMessage_without_document [OF h] h p show ?thesis by simp
qed

lemma sendMessage_flag_pending:
  assumes "length (pending s) = (if isProcessingMessage s then 1 else 0)"
  shows "length (pending (sendMessage s)) = (if isProcessingMessage (sendMessage s) then 1 else 0)"
  using assms
  by (auto simp: sendMessage_def addMessage_def showTypingIndicator_def Let_def
        split: option.splits)

lemma settled_fields:
  "isProcessingMessage (sendMessage_settled i r s) = False"
  "pending (sendMessage_settled i r s) = take i (pending s) @ drop (Suc i) (pending s)"
  "sendButton (sendMessage_settled i r s) = map_option (\<lambda>_. False) (sendButton s)"
  by (auto simp: sendMessage_settled_def connectError_def addMessage_def
        hideTypingIndicator_def Let_def split: reply.splits option.splits)

lemma reachable_flag_pending:
  "reachable s \<Longrightarrow> length (pending s) = (if isProcessingMessage s then 1 else 0)"
proof (induction rule: reachable.induct)
  case (start mi sb)
  then show ?case by (simp add: initialApp_def)
next
  case (click_send s)
  from click_send.IH show ?case by (rule sendMessage_flag_pending)
next
  case (press_enter s)
  have "keypressEnter s = s \<or> keypressEnter s = sendMessage s"
    by (simp add: keypressEnter_def)
  then show ?case
    using press_enter.IH sendMessage_flag_pending [OF press_enter.IH] by metis
next
  case (suggested s q)
  have "length (pending (sendMessage (s\<lparr>messageInput := Some q\<rparr>))) =
          (if isProcessingMessage (sendMessage (s\<lparr>messageInput := Some q\<rparr>)) then 1 else 0)"
    using suggested.IH by (intro sendMessage_flag_pending) simp
  moreover have "askSuggestedQuestion q s = s \<or>
      askSuggestedQuestion q s = sendMessage (s\<lparr>messageInput := Some q\<rparr>)"
    by (simp add: askSuggestedQuestion_def split: option.splits)
  ultimately show ?case
    using suggested.IH by metis
next
  case (settled s i r)
  then have "length (pending s) = 1" "i = 0"
    by (auto split: if_splits)
  then show ?case
    by (simp add: settled_fields)
next
  case (other s s')
  then show ?case by simp
qed

text \<open>
  Claim C10. In every reachable state at most one \<open>/chat\<close> request is pending, and one is
  pending exactly when \<open>isProcessingMessage\<close> is set. While it is set, the send button,
  the Enter key and a suggested question all leave the state unchanged. However the
  pending request settles, the continuation clears the flag, leaves no request pending
  and enables the send button again.
\<close>

theorem one_message_in_flight:
  assumes "reachable s"
  shows "length (pending s) \<le> 1 \<and>
         (isProcessingMessage s \<longleftrightarrow> pending s \<noteq> []) \<and>
         (isProcessingMessage s \<longrightarrow>
            sendMessage s = s \<and> keypressEnter s = s \<and> askSuggestedQuestion q s = s) \<and>
         (\<forall>i r. i < length (pending s) \<longrightarrow>
            \<not> isProcessingMessage (sendMessage_settled i r s) \<and>
            pending (sendMessage_settled i r s) = [] \<and>
            sendButton (sendMessage_settled i r s) = map_option (\<lambda>_. False) (sendButton s))"
proof -
  have inv: "length (pending s) = (if isProcessingMessage s then 1 else 0)"
    using assms by (rule reachable_flag_pending)
  have "length (pending s) \<le> 1" and "isProcessingMessage s \<longleftrightarrow> pending s \<noteq> []"
    using inv by (auto split: if_splits)
  moreover have "isProcessingMessage s \<longrightarrow>
      sendMessage s = s \<and> keypressEnter s = s \<and> askSuggestedQuestion q s = s"
    by (simp add: sendMessage_def keypressEnter_def askSuggestedQuestion_def Let_def
          split: option.splits)
  moreover have "\<forall>i r. i < length (pending s) \<longrightarrow>
            \<not> isProcessingMessage (sendMessage_settled i r s) \<and>
            pending (sendMessage_settled i r s) = [] \<and>
            sendButton (sendMessage_settled i r s) = map_option (\<lambda>_. False) (sendButton s)"
    using inv by (auto simp: settled_fields split: if_splits)
  ultimately show ?thesis by blast
qed

theorem one_message_in_flight_witness:
  "isProcessingMessage
     (sendMessage ((initialApp (Some ''What is this about?'') (Some False))\<lparr>documentProcessed := True\<rparr>)) \<and>
   pending
     (sendMessage ((initialApp (Some ''What is this about?'') (Some False))\<lparr>documentProcessed := True\<rparr>))
     = [''What is this about?''] \<and>
   askSuggestedQuestion ''And then?''
     (sendMessage ((initialApp (Some ''What is this about?'') (Some False))\<lparr>documentProcessed := True\<rparr>))
     = sendMessage ((initialApp (Some ''What is this about?'') (Some False))\<lparr>documentProcessed := True\<rparr>) \<and>
   \<not> isProcessingMessage
     (sendMessage_settled 0 Threw
        (sendMessage ((initialApp (Some ''What is this about?'') (Some False))\<lparr>documentProcessed := True\<rparr>)))"
proof -
  define s0 where "s0 = (initialApp (Some ''What is this about?'') (Some False))\<lparr>documentProcessed := True\<rparr>"
  define s1 where "s1 = sendMessage s0"
  have "reachable (initialApp (Some ''What is this about?'') (Some False))"
    by (rule reachable.start)
  then have "reachable s0"
    by (rule reachable.other) (simp_all add: s0_def)
  then have r: "reachable s1"
    unfolding s1_def by (rule reachable.click_send)
  have t: "trim ''What is this about?'' = ''What is this about?''"
    by code_simp
  have f: "isProcessingMessage s1" and p: "pending s1 = [''What is this about?'']"
    unfolding s1_def s0_def
    by (simp_all add: sendMessage_def initialApp_def addMessage_def showTypingIndicator_def t Let_def)
  from one_message_in_flight [OF r, of "''And then?''"] f p show ?thesis
    unfolding s1_def s0_def by simp
qed


end
